theory Spec2Isabelle
  imports Main "HOL-Library.Sublist" "HOL-Library.Multiset"
begin

section \<open>Python string primitives used by the agent\<close>

text \<open>
  The agent works on Python \<open>str\<close> values. A \<^typ>\<open>char\<close> stands for one code point
  below 256 (ASCII and the Latin-1 supplement): log text outside that range is not
  covered by this development. On that range the character classes below are the ones
  of \<open>str.isspace\<close> (also \<open>\s\<close> of \<open>re\<close> and the characters \<open>str.strip()\<close> removes),
  of \<open>\d\<close>, of the line boundaries of \<open>str.splitlines\<close>, and of \<open>str.lower\<close>.
\<close>

definition is_space :: "char \<Rightarrow> bool" where
  "is_space c = (of_char c \<in> {9, 10, 11, 12, 13, 28, 29, 30, 31, 32, 133, 160 :: nat})"

definition is_digit :: "char \<Rightarrow> bool" where
  "is_digit c = (48 \<le> (of_char c :: nat) \<and> (of_char c :: nat) \<le> 57)"

definition is_linebreak :: "char \<Rightarrow> bool" where
  "is_linebreak c = (of_char c \<in> {10, 11, 12, 13, 28, 29, 30, 133 :: nat})"

definition char_lower :: "char \<Rightarrow> char" where
  "char_lower c =
     (let n = (of_char c :: nat)
      in if (65 \<le> n \<and> n \<le> 90) \<or> (192 \<le> n \<and> n \<le> 222 \<and> n \<noteq> 215)
         then char_of (n + 32) else c)"

text \<open>\<open>s.lower()\<close>\<close>

definition lower :: "string \<Rightarrow> string" where
  "lower s = map char_lower s"

text \<open>\<open>s.strip()\<close>\<close>

definition strip :: "string \<Rightarrow> string" where
  "strip s = rev (dropWhile is_space (rev (dropWhile is_space s)))"

text \<open>
  \<open>text.splitlines()\<close>: the text is cut at every line boundary, \<open>\r\n\<close> counting as
  one; the boundaries are dropped, and a text that ends with a boundary has no empty last
  line. The first argument is the line read so far.
\<close>

fun splitlines_from :: "string \<Rightarrow> string \<Rightarrow> string list" where
  "splitlines_from cur [] = (if cur = [] then [] else [cur])"
| "splitlines_from cur [c] = (if is_linebreak c then [cur] else [cur @ [c]])"
| "splitlines_from cur (c # d # cs) =
     (if c = CHR 0x0D \<and> d = CHR 0x0A then cur # splitlines_from [] cs
      else if is_linebreak c then cur # splitlines_from [] (d # cs)
      else splitlines_from (cur @ [c]) (d # cs))"

definition splitlines :: "string \<Rightarrow> string list" where
  "splitlines s = splitlines_from [] s"

text \<open>
  \<open>s.replace(old, new)\<close>: every occurrence of \<open>old\<close>, found from left to right without
  overlap, is replaced. (With an empty \<open>old\<close> Python puts \<open>new\<close> around every character.)
\<close>

function str_replace :: "string \<Rightarrow> string \<Rightarrow> string \<Rightarrow> string" where
  "str_replace old new [] = (if old = [] then new else [])"
| "str_replace old new (c # cs) =
     (if old = [] then new @ c # str_replace old new cs
      else if prefix old (c # cs)
      then new @ str_replace old new (drop (length old) (c # cs))
      else c # str_replace old new cs)"
  by pat_completeness auto
termination
  by (relation "measure (\<lambda>(old, new, s). length s)") auto

text \<open>
  \<open>re.search(p, line, re.IGNORECASE)\<close> for a pattern \<open>p\<close> that is an alternation of
  literal strings: some literal occurs in the line up to case. On the characters covered
  here two characters agree up to case exactly when \<open>str.lower\<close> maps them to the same
  character.
\<close>

definition search_ignorecase :: "string list \<Rightarrow> string \<Rightarrow> bool" where
  "search_ignorecase literals line =
     list_ex (\<lambda>p. sublist (lower p) (lower line)) literals"

text \<open>The substring test \<open>sub in s\<close>.\<close>

definition str_in :: "string \<Rightarrow> string \<Rightarrow> bool" where
  "str_in sub s = sublist sub s"

subsection \<open>The normalisation pattern\<close>

text \<open>
  \<open>re.sub(r"^\d{4}-\d{2}-\d{2}T.*?Z\s*##\[error\]\s*", "", line)\<close>. The pattern is
  anchored at the start of the line, so at most one match is removed. \<open>match_seq\<close> reads
  a fixed sequence of character classes; \<open>match_marker\<close> is \<open>\s*##\[error\]\s*\<close> (both
  \<open>\s*\<close> take every space there is: the marker does not start with a space);
  \<open>match_lazy_Z\<close> is \<open>.*?Z\<close> followed by the marker: the first \<open>Z\<close> after which
  the marker matches, with \<open>.\<close> not matching a newline. Each returns the rest of the line
  after the match.
\<close>

fun match_seq :: "(char \<Rightarrow> bool) list \<Rightarrow> string \<Rightarrow> string option" where
  "match_seq [] s = Some s"
| "match_seq (p # ps) [] = None"
| "match_seq (p # ps) (c # cs) = (if p c then match_seq ps cs else None)"

definition date_T :: "(char \<Rightarrow> bool) list" where
  "date_T = [is_digit, is_digit, is_digit, is_digit, (=) CHR ''-'',
             is_digit, is_digit, (=) CHR ''-'', is_digit, is_digit, (=) CHR ''T'']"

definition match_marker :: "string \<Rightarrow> string option" where
  "match_marker s =
     (let s' = dropWhile is_space s
      in if prefix ''##[error]'' s'
         then Some (dropWhile is_space (drop (length ''##[error]'') s'))
         else None)"

fun match_lazy_Z :: "string \<Rightarrow> string option" where
  "match_lazy_Z [] = None"
| "match_lazy_Z (c # cs) =
     (if c = CHR ''Z'' \<and> match_marker cs \<noteq> None then match_marker cs
      else if c = CHR 0x0A then None
      else match_lazy_Z cs)"

definition match_timestamp_marker :: "string \<Rightarrow> string option" where
  "match_timestamp_marker line =
     (case match_seq date_T line of None \<Rightarrow> None | Some rest \<Rightarrow> match_lazy_Z rest)"

definition sub_timestamp_marker :: "string \<Rightarrow> string" where
  "sub_timestamp_marker line =
     (case match_timestamp_marker line of None \<Rightarrow> line | Some rest \<Rightarrow> rest)"

definition normalize :: "string \<Rightarrow> string" where
  "normalize line = strip (sub_timestamp_marker line)"

section \<open>Error extraction\<close>

text \<open>
  One extracted error, the dictionary \<open>{"job_step", "line_no", "error_line"}\<close> that
  \<open>extract_all_errors\<close> appends.
\<close>

record error_entry =
  job_step :: string
  line_no :: nat
  error_line :: string

text \<open>
  The exceptions that can leave the agent's methods: \<open>BadZipFile\<close> from the archive
  (its constructor, or the reading of an entry whose data is damaged), \<open>IndexError\<close> from
  \<open>response[0]\<close>, and what else the reading of an entry raises (\<open>RuntimeError\<close> for an
  encrypted entry, \<open>NotImplementedError\<close> for a compression method the library does not
  have, any other class by its name). The source catches none of them.
\<close>

datatype error = BadZipFile | IndexError | RuntimeError | NotImplementedError | OtherError string

text \<open>
  An opened archive, as \<open>extract_all_errors\<close> uses it: \<open>namelist\<close> is \<open>z.namelist()\<close>
  and \<open>read_text z name\<close> is \<open>z.read(name).decode(errors="ignore")\<close>: either the exception
  that \<open>z.read\<close> raises, or the decoded text (decoding with \<open>errors="ignore"\<close> raises
  nothing). Decompression and decoding themselves belong to the Python library and are not
  modelled.
\<close>

record zip_archive =
  namelist :: "string list"
  read_text :: "string \<Rightarrow> error + string"

definition noise_patterns :: "string list" where
  "noise_patterns = [''Process completed with exit code'', ''Job defined at:'']"

definition error_patterns :: "string list" where
  "error_patterns = [''##[error]'', ''ERROR'', ''Exception'', ''ZeroDivisionError'',
                     ''ModuleNotFoundError'', ''No such file'']"

definition is_noise :: "string \<Rightarrow> bool" where
  "is_noise line = search_ignorecase noise_patterns line"

definition is_error :: "string \<Rightarrow> bool" where
  "is_error line = search_ignorecase error_patterns line"

text \<open>
  The body of the inner loop, for the line \<open>line\<close> numbered \<open>idx\<close> of the entry \<open>name\<close>.
  The state is the pair of \<open>seen_errors\<close> and \<open>errors\<close>; a \<open>continue\<close> leaves it as it is.
\<close>

definition scan_line ::
  "string \<Rightarrow> nat \<Rightarrow> string \<Rightarrow> string set \<times> error_entry list \<Rightarrow> string set \<times> error_entry list"
where
  "scan_line name idx line st =
     (case st of (seen_errors, errors) \<Rightarrow>
        if is_noise line then st
        else if is_error line then
          (let normalized = normalize line
           in if lower normalized \<in> seen_errors then st
              else (insert (lower normalized) seen_errors,
                    errors @ [\<lparr>job_step = str_replace ''.txt'' [] name,
                               line_no = idx,
                               error_line = normalized\<rparr>]))
        else st)"

text \<open>\<open>for idx, line in enumerate(lines, start=1)\<close>\<close>

definition scan_lines ::
  "string \<Rightarrow> string list \<Rightarrow> string set \<times> error_entry list \<Rightarrow> string set \<times> error_entry list"
where
  "scan_lines name lines st = fold (\<lambda>(idx, line). scan_line name idx line) (enumerate 1 lines) st"

text \<open>
  \<open>for name in z.namelist()\<close>, over the names still to visit: the entry is read, and an
  exception of the reading ends the loop and the method; otherwise its lines are scanned.
\<close>

fun scan_entries ::
  "zip_archive \<Rightarrow> string list \<Rightarrow> string set \<times> error_entry list \<Rightarrow>
   error + string set \<times> error_entry list"
where
  "scan_entries z [] st = Inr st"
| "scan_entries z (name # names) st =
     (case read_text z name of
        Inl x \<Rightarrow> Inl x
      | Inr text \<Rightarrow> scan_entries z names (scan_lines name (splitlines text) st))"

text \<open>\<open>extract_all_errors\<close> once the archive is open: the loops, then \<open>return errors\<close>.\<close>

definition extract_from :: "zip_archive \<Rightarrow> error + error_entry list" where
  "extract_from z =
     (case scan_entries z (namelist z) ({}, []) of
        Inl x \<Rightarrow> Inl x
      | Inr (seen_errors, errors) \<Rightarrow> Inr errors)"

section \<open>The agent and its collaborators\<close>

type_synonym bytes = "char list"

record workflow =
  wf_id :: int
  wf_name :: string

record run =
  r_id :: int
  conclusion :: "string option"

text \<open>
  What the agent calls and does not own: the three GitHub requests (each already reduced
  to what the method returns: \<open>None\<close> for a request that failed), the constructor
  \<open>zipfile.ZipFile(io.BytesIO(zip_bytes))\<close> (\<open>None\<close> when it raises \<open>BadZipFile\<close>), and the
  text generation pipeline \<open>llm(prompt, max_new_tokens=n)\<close>, which returns a list of
  dictionaries.
\<close>

record env =
  list_workflows :: "workflow list"
  latest_run :: "int \<Rightarrow> run option"
  download_logs :: "int \<Rightarrow> bytes option"
  ZipFile :: "bytes \<Rightarrow> zip_archive option"
  llm :: "string \<Rightarrow> nat \<Rightarrow> (string \<rightharpoonup> string) list"

text \<open>
  The calls made, oldest first. An entry is appended at each place where the source calls
  a collaborator (\<open>list_workflows\<close>, \<open>latest_run\<close>, \<open>download_logs\<close>, \<open>llm\<close>) or one of
  the methods \<open>extract_all_errors\<close> and \<open>ai_fix\<close>.
\<close>

datatype call =
    List_workflows
  | Latest_run int
  | Download_logs int
  | Extract_all_errors bytes
  | Ai_fix string
  | Llm string nat

definition extract_all_errors :: "env \<Rightarrow> bytes \<Rightarrow> error + error_entry list" where
  "extract_all_errors e zip_bytes =
     (case ZipFile e zip_bytes of
        None \<Rightarrow> Inl BadZipFile
      | Some z \<Rightarrow> extract_from z)"

subsection \<open>Suggestions\<close>

definition rule_based_fix :: "string \<Rightarrow> string option" where
  "rule_based_fix error_text =
     (let error_lower = lower error_text
      in if str_in ''modulenotfounderror'' error_lower
         then Some (''Cause: A required Python dependency is missing.\<newline>'' @
                    ''Fix: Add the missing package to requirements.txt and ensure dependencies are installed in the workflow.'')
         else None)"

definition prompt_for :: "string \<Rightarrow> string" where
  "prompt_for error_text =
     ''You are a senior DevOps engineer.\<newline>'' @
     ''Explain the root cause and fix for this CI failure.\<newline>\<newline>'' @
     error_text @ ''\<newline>\<newline>'' @
     ''Respond exactly in this format:\<newline>'' @
     ''Cause: <one sentence>\<newline>'' @
     ''Fix: <one sentence>''"

definition generic_fix :: string where
  "generic_fix =
     ''Cause: The workflow failed due to a configuration or dependency issue.\<newline>'' @
     ''Fix: Review the error message and update the workflow or project files accordingly.''"

text \<open>\<open>a or b\<close> for a looked-up string \<open>a\<close>: \<open>None\<close> and the empty string are false.\<close>

definition or_else :: "string option \<Rightarrow> string \<Rightarrow> string" where
  "or_else a b = (case a of None \<Rightarrow> b | Some s \<Rightarrow> if s = [] then b else s)"

text \<open>\<open>response[0].get("generated_text") or response[0].get("text") or ""\<close>\<close>

definition output_text :: "(string \<rightharpoonup> string) \<Rightarrow> string" where
  "output_text d = or_else (d ''generated_text'') (or_else (d ''text'') [])"

text \<open>
  \<open>ai_fix\<close> after the rule table gave nothing: the prompt, the call of \<open>llm\<close>, and the
  check of its text. \<open>response[0]\<close> raises \<open>IndexError\<close> on an empty list.
\<close>

definition ai_generate :: "env \<Rightarrow> string \<Rightarrow> call list \<Rightarrow> error + (string \<times> call list)" where
  "ai_generate e error_text tr =
     (let prompt = prompt_for error_text;
          response = llm e prompt 80;
          tr' = tr @ [Llm prompt 80]
      in case response of
           [] \<Rightarrow> Inl IndexError
         | d # _ \<Rightarrow>
             (let text = strip (output_text d)
              in if \<not> str_in ''Cause:'' text \<or> \<not> str_in ''Fix:'' text
                 then Inr (generic_fix, tr')
                 else Inr (text, tr')))"

definition ai_fix :: "env \<Rightarrow> string \<Rightarrow> call list \<Rightarrow> error + (string \<times> call list)" where
  "ai_fix e error_text tr =
     (case rule_based_fix error_text of
        None \<Rightarrow> ai_generate e error_text tr
      | Some rule_fix \<Rightarrow>
          if rule_fix \<noteq> [] then Inr (rule_fix, tr) else ai_generate e error_text tr)"

subsection \<open>The monitoring pass\<close>

record annotated_error = error_entry +
  error_number :: nat
  suggestion :: string

record run_result =
  workflow_name :: string
  run_id :: int
  errors :: "annotated_error list"

record monitor_state =
  passed :: nat
  failed :: nat
  all_results :: "run_result list"
  trace :: "call list"

text \<open>\<open>for idx, err in enumerate(errors, start=1)\<close>, appending to \<open>errors_info\<close>.\<close>

fun annotate ::
  "env \<Rightarrow> (nat \<times> error_entry) list \<Rightarrow> annotated_error list \<Rightarrow> call list \<Rightarrow>
   error + (annotated_error list \<times> call list)"
where
  "annotate e [] errors_info tr = Inr (errors_info, tr)"
| "annotate e ((idx, err) # rest) errors_info tr =
     (case ai_fix e (error_line err) (tr @ [Ai_fix (error_line err)]) of
        Inl x \<Rightarrow> Inl x
      | Inr (fix, tr') \<Rightarrow>
          annotate e rest
            (errors_info @ [\<lparr>job_step = job_step err, line_no = line_no err,
                             error_line = error_line err,
                             error_number = idx, suggestion = fix\<rparr>]) tr')"

text \<open>
  The body of the loop over the workflows. A value \<open>Inl x\<close> is the exception \<open>x\<close> leaving
  \<open>monitor\<close>: the source catches none. The lines printed while the loop runs are left out.
\<close>

definition monitor_step :: "env \<Rightarrow> workflow \<Rightarrow> monitor_state \<Rightarrow> error + monitor_state" where
  "monitor_step e wflow st =
     (let tr1 = trace st @ [Latest_run (wf_id wflow)]
      in case latest_run e (wf_id wflow) of
           None \<Rightarrow> Inr (st\<lparr>trace := tr1\<rparr>)
         | Some run \<Rightarrow>
             if conclusion run = Some ''success''
             then Inr (st\<lparr>passed := passed st + 1, trace := tr1\<rparr>)
             else if conclusion run = Some ''failure''
             then
               (let st1 = st\<lparr>failed := failed st + 1,
                             trace := tr1 @ [Download_logs (r_id run)]\<rparr>
                in case download_logs e (r_id run) of
                     None \<Rightarrow> Inr st1
                   | Some logs \<Rightarrow>
                       if logs = [] then Inr st1
                       else
                         (case extract_all_errors e logs of
                            Inl x \<Rightarrow> Inl x
                          | Inr errs \<Rightarrow>
                              (case annotate e (enumerate 1 errs) []
                                      (trace st1 @ [Extract_all_errors logs]) of
                                 Inl x \<Rightarrow> Inl x
                               | Inr (errors_info, tr') \<Rightarrow>
                                   Inr (st1\<lparr>all_results := all_results st1 @
                                               [\<lparr>workflow_name = wf_name wflow,
                                                 run_id = r_id run,
                                                 errors = errors_info\<rparr>],
                                            trace := tr'\<rparr>))))
             else Inr (st\<lparr>trace := tr1\<rparr>))"

fun monitor_loop :: "env \<Rightarrow> workflow list \<Rightarrow> monitor_state \<Rightarrow> error + monitor_state" where
  "monitor_loop e [] st = Inr st"
| "monitor_loop e (wflow # wfs) st =
     (case monitor_step e wflow st of
        Inl x \<Rightarrow> Inl x
      | Inr st' \<Rightarrow> monitor_loop e wfs st')"

text \<open>
  What \<open>monitor\<close> prints at its end: the results, and the three numbers of the summary.
\<close>

record monitor_summary = monitor_state +
  total_workflows :: nat

definition monitor :: "env \<Rightarrow> error + monitor_summary" where
  "monitor e =
     (let workflows = list_workflows e
      in case monitor_loop e workflows
                \<lparr>passed = 0, failed = 0, all_results = [], trace = [List_workflows]\<rparr> of
           Inl x \<Rightarrow> Inl x
         | Inr st \<Rightarrow>
             Inr \<lparr>passed = passed st, failed = failed st, all_results = all_results st,
                  trace = trace st, total_workflows = length workflows\<rparr>)"

section \<open>Notions for the statements below\<close>

text \<open>
  The shape the normalisation pattern reads, written out: \<open>stamped line d m ws rest\<close> says
  that \<open>line\<close> is \<open>d\<close>, then \<open>m\<close>, then \<open>Z\<close>, then \<open>ws\<close>, then \<open>##[error]\<close>, then \<open>rest\<close>,
  where \<open>d\<close> is four digits, a dash, two digits, a dash, two digits and \<open>T\<close>, where \<open>m\<close> has no
  newline, and where \<open>ws\<close> is white space.
\<close>

definition stamped :: "string \<Rightarrow> string \<Rightarrow> string \<Rightarrow> string \<Rightarrow> string \<Rightarrow> bool" where
  "stamped line d m ws rest \<longleftrightarrow>
     line = d @ m @ ''Z'' @ ws @ ''##[error]'' @ rest \<and>
     list_all2 (\<lambda>p c. p c) date_T d \<and> CHR 0x0A \<notin> set m \<and> list_all is_space ws"

text \<open>
  An archive is readable when every entry it lists can be read. The lines of an archive
  in the order the two loops visit them, each with the name of its entry and its number
  (an entry that cannot be read has none); those of them that are not noise and match an
  error pattern; the entry \<open>extract_all_errors\<close> builds from a line; and the text by which
  it tells whether a line was seen before.
\<close>

definition readable :: "zip_archive \<Rightarrow> bool" where
  "readable z \<longleftrightarrow> (\<forall>name \<in> set (namelist z). \<not> isl (read_text z name))"

type_synonym raw_line = "string \<times> nat \<times> string"

definition entry_lines :: "zip_archive \<Rightarrow> string \<Rightarrow> raw_line list" where
  "entry_lines z name =
     (case read_text z name of
        Inl x \<Rightarrow> []
      | Inr text \<Rightarrow> map (\<lambda>(idx, line). (name, idx, line)) (enumerate 1 (splitlines text)))"

definition archive_lines :: "zip_archive \<Rightarrow> raw_line list" where
  "archive_lines z = concat (map (entry_lines z) (namelist z))"

definition error_lines :: "zip_archive \<Rightarrow> raw_line list" where
  "error_lines z = filter (\<lambda>(name, idx, line). \<not> is_noise line \<and> is_error line) (archive_lines z)"

definition entry_of :: "raw_line \<Rightarrow> error_entry" where
  "entry_of l = (case l of (name, idx, line) \<Rightarrow>
     \<lparr>job_step = str_replace ''.txt'' [] name, line_no = idx, error_line = normalize line\<rparr>)"

definition dedup_key :: "raw_line \<Rightarrow> string" where
  "dedup_key l = (case l of (name, idx, line) \<Rightarrow> lower (normalize line))"

text \<open>
  The body of the inner loop on a line given with its entry name and number, and the
  lines of a list that are kept when the texts in \<open>seen\<close> were met before: a line is
  dropped when its text, or that of an earlier line of the list, is the same up to case.
\<close>

definition scan_raw :: "raw_line \<Rightarrow> string set \<times> error_entry list \<Rightarrow> string set \<times> error_entry list" where
  "scan_raw l = (case l of (name, idx, line) \<Rightarrow> scan_line name idx line)"

fun first_seen :: "string set \<Rightarrow> raw_line list \<Rightarrow> raw_line list" where
  "first_seen seen [] = []"
| "first_seen seen (l # ls) =
     (if dedup_key l \<in> seen then first_seen seen ls
      else l # first_seen (insert (dedup_key l) seen) ls)"




section \<open>Sample inputs\<close>

definition missing_module_line :: string where
  "missing_module_line = ''ModuleNotFoundError: No module named 'foo'' @ [CHR 0x27]"

definition silent_llm_env :: env where
  "silent_llm_env = \<lparr>list_workflows = [], latest_run = (\<lambda>_. None), download_logs = (\<lambda>_. None),
     ZipFile = (\<lambda>_. None), llm = (\<lambda>_ _. [])\<rparr>"

definition ci_workflow :: workflow where
  "ci_workflow = \<lparr>wf_id = 1, wf_name = ''CI''\<rparr>"

definition failed_run :: run where
  "failed_run = \<lparr>r_id = 101, conclusion = Some ''failure''\<rparr>"

definition labelled_llm :: "string \<Rightarrow> nat \<Rightarrow> (string \<rightharpoonup> string) list" where
  "labelled_llm prompt n = [[''generated_text'' \<mapsto> ''Cause: the step failed. Fix: read the log.'']]"

definition corrupt_env :: env where
  "corrupt_env = \<lparr>list_workflows = [ci_workflow], latest_run = (\<lambda>i. Some failed_run),
     download_logs = (\<lambda>i. Some ''not a zip archive''), ZipFile = (\<lambda>b. None), llm = labelled_llm\<rparr>"

definition no_logs_env :: env where
  "no_logs_env = \<lparr>list_workflows = [ci_workflow], latest_run = (\<lambda>i. Some failed_run),
     download_logs = (\<lambda>i. None), ZipFile = (\<lambda>b. None), llm = labelled_llm\<rparr>"

definition quiet_archive :: zip_archive where
  "quiet_archive = \<lparr>namelist = [''build/1_Set up job.txt''],
     read_text = (\<lambda>name. Inr ''Preparing runner\<newline>Process completed with exit code 1'')\<rparr>"

definition quiet_env :: env where
  "quiet_env = \<lparr>list_workflows = [ci_workflow], latest_run = (\<lambda>i. Some failed_run),
     download_logs = (\<lambda>i. Some ''PK-logs''), ZipFile = (\<lambda>b. Some quiet_archive), llm = labelled_llm\<rparr>"

definition unlabelled_env :: env where
  "unlabelled_env = \<lparr>list_workflows = [], latest_run = (\<lambda>i. None), download_logs = (\<lambda>i. None),
     ZipFile = (\<lambda>b. None), llm = (\<lambda>prompt n. [[''generated_text'' \<mapsto> ''It is broken.'']])\<rparr>"

definition sample_archive :: zip_archive where
  "sample_archive = \<lparr>namelist = [''build/1_Set up job.txt'', ''build/2_Run tests.txt''],
     read_text = (\<lambda>name.
       if name = ''build/1_Set up job.txt''
       then Inr ''Preparing runner\<newline>2024-05-01T12:00:00.000Z ##[error] Something broke''
       else if name = ''build/2_Run tests.txt''
       then Inr ''2024-05-01T12:00:01.000Z ##[error] SOMETHING BROKE\<newline>ModuleNotFoundError: No module named requests\<newline>Process completed with exit code 1''
       else Inr [])\<rparr>"


definition noise_archive :: zip_archive where
  "noise_archive = \<lparr>namelist = [''build/3_Run tests.txt''],
     read_text = (\<lambda>name. Inr ''Process completed with exit code ERROR'')\<rparr>"

definition txt_job_archive :: zip_archive where
  "txt_job_archive = \<lparr>namelist = [''check.txt files/1_Set up job.txt''],
     read_text = (\<lambda>name. Inr ''ERROR: disk full'')\<rparr>"




section \<open>Substrings and stripping\<close>

lemma sublist_dropWhile_iff:
  assumes "p \<noteq> []" "\<not> P (hd p)"
  shows "sublist p (dropWhile P s) = sublist p s"
proof (induction s)
  case Nil
  then show ?case by simp
next
  case (Cons c s)
  show ?case
  proof (cases "P c")
    case True
    with assms have "\<not> prefix p (c # s)"
      by (cases p) auto
    with True Cons show ?thesis
      by (simp add: sublist_Cons_right)
  next
    case False
    then show ?thesis by simp
  qed
qed

lemma sublist_strip_iff:
  assumes "p \<noteq> []" "\<not> is_space (hd p)" "\<not> is_space (last p)"
  shows "sublist p (strip s) = sublist p s"
proof -
  have "sublist p (strip s) = sublist (rev p) (dropWhile is_space (rev (dropWhile is_space s)))"
    by (simp add: strip_def sublist_rev_left)
  also have "\<dots> = sublist (rev p) (rev (dropWhile is_space s))"
    using assms by (intro sublist_dropWhile_iff) (simp_all add: hd_rev)
  also have "\<dots> = sublist p (dropWhile is_space s)"
    by simp
  also have "\<dots> = sublist p s"
    using assms by (intro sublist_dropWhile_iff)
  finally show ?thesis .
qed

lemma Cause_strip: "str_in ''Cause:'' (strip s) = str_in ''Cause:'' s"
  unfolding str_in_def by (rule sublist_strip_iff) (simp_all add: is_space_def)

lemma Fix_strip: "str_in ''Fix:'' (strip s) = str_in ''Fix:'' s"
  unfolding str_in_def by (rule sublist_strip_iff) (simp_all add: is_space_def)

lemma generic_fix_labels: "str_in ''Cause:'' generic_fix \<and> str_in ''Fix:'' generic_fix"
  unfolding str_in_def generic_fix_def by code_simp

section \<open>Normalisation\<close>

lemma match_seq_iff:
  "match_seq ps s = Some r \<longleftrightarrow> (\<exists>d. s = d @ r \<and> list_all2 (\<lambda>p c. p c) ps d)"
proof (induction ps s rule: match_seq.induct)
  case (1 s)
  show ?case by auto
next
  case (2 p ps)
  show ?case by auto
next
  case (3 p ps c cs)
  show ?case
  proof (cases "p c")
    case True
    have "(\<exists>d. c # cs = d @ r \<and> list_all2 (\<lambda>p c. p c) (p # ps) d) \<longleftrightarrow>
          (\<exists>d'. cs = d' @ r \<and> list_all2 (\<lambda>p c. p c) ps d')"
      using True by (auto simp add: list_all2_Cons1 Cons_eq_append_conv)
    with 3 True show ?thesis by simp
  next
    case False
    then show ?thesis
      by (auto simp add: list_all2_Cons1 Cons_eq_append_conv)
  qed
qed

lemma prefix_drop: "prefix p s \<Longrightarrow> s = p @ drop (length p) s"
  by (auto simp add: prefix_def)

lemma match_marker_iff:
  "match_marker t = Some r \<longleftrightarrow>
     (\<exists>ws rest. t = ws @ ''##[error]'' @ rest \<and> list_all is_space ws \<and> r = dropWhile is_space rest)"
proof
  assume m: "match_marker t = Some r"
  let ?s = "dropWhile is_space t"
  let ?rest = "drop (length ''##[error]'') ?s"
  from m have p: "prefix ''##[error]'' ?s" and r: "r = dropWhile is_space ?rest"
    by (auto simp add: match_marker_def Let_def split: if_splits)
  from p have "?s = ''##[error]'' @ ?rest"
    by (rule prefix_drop)
  then have "t = takeWhile is_space t @ ''##[error]'' @ ?rest"
    by (metis takeWhile_dropWhile_id)
  moreover have "list_all is_space (takeWhile is_space t)"
    by (simp add: list_all_iff) (meson set_takeWhileD)
  ultimately show "\<exists>ws rest. t = ws @ ''##[error]'' @ rest \<and> list_all is_space ws \<and>
                     r = dropWhile is_space rest"
    using r by blast
next
  assume "\<exists>ws rest. t = ws @ ''##[error]'' @ rest \<and> list_all is_space ws \<and>
            r = dropWhile is_space rest"
  then obtain ws rest where t: "t = ws @ ''##[error]'' @ rest" and ws: "list_all is_space ws"
    and r: "r = dropWhile is_space rest"
    by blast
  have "\<not> is_space CHR ''#''"
    by (simp add: is_space_def)
  then have "dropWhile is_space t = ''##[error]'' @ rest"
    using ws unfolding t by (simp add: list_all_iff dropWhile_append)
  then show "match_marker t = Some r"
    using r by (simp add: match_marker_def)
qed

lemma match_lazy_Z_sound:
  "match_lazy_Z s = Some r \<Longrightarrow>
     \<exists>m t. s = m @ ''Z'' @ t \<and> CHR 0x0A \<notin> set m \<and> match_marker t = Some r \<and>
       (\<forall>m' t'. s = m' @ ''Z'' @ t' \<and> match_marker t' \<noteq> None \<longrightarrow> length m \<le> length m')"
proof (induction s)
  case Nil
  then show ?case by simp
next
  case (Cons c cs)
  show ?case
  proof (cases "c = CHR ''Z'' \<and> match_marker cs \<noteq> None")
    case True
    with Cons.prems have "match_marker cs = Some r" by simp
    with True have "c # cs = [] @ ''Z'' @ cs \<and> CHR 0x0A \<notin> set [] \<and> match_marker cs = Some r \<and>
       (\<forall>m' t'. c # cs = m' @ ''Z'' @ t' \<and> match_marker t' \<noteq> None \<longrightarrow> length ([]::string) \<le> length m')"
      by simp
    then show ?thesis by blast
  next
    case False
    with Cons.prems have nl: "c \<noteq> CHR 0x0A" and rec: "match_lazy_Z cs = Some r"
      by (auto split: if_splits)
    from Cons.IH [OF rec] obtain m t where
      cs: "cs = m @ ''Z'' @ t" and m: "CHR 0x0A \<notin> set m" and t: "match_marker t = Some r"
      and least: "\<forall>m' t'. cs = m' @ ''Z'' @ t' \<and> match_marker t' \<noteq> None \<longrightarrow> length m \<le> length m'"
      by blast
    have "length (c # m) \<le> length m'" if "c # cs = m' @ ''Z'' @ t'" "match_marker t' \<noteq> None" for m' t'
    proof (cases m')
      case Nil
      with that False show ?thesis by simp
    next
      case (Cons a m'')
      with that have "cs = m'' @ ''Z'' @ t'" by simp
      with least that(2) have "length m \<le> length m''" by blast
      with Cons show ?thesis by simp
    qed
    then have "c # cs = (c # m) @ ''Z'' @ t \<and> CHR 0x0A \<notin> set (c # m) \<and> match_marker t = Some r \<and>
       (\<forall>m' t'. c # cs = m' @ ''Z'' @ t' \<and> match_marker t' \<noteq> None \<longrightarrow> length (c # m) \<le> length m')"
      using cs m t nl by auto
    then show ?thesis by blast
  qed
qed

lemma match_lazy_Z_complete:
  "CHR 0x0A \<notin> set m \<Longrightarrow> match_marker t \<noteq> None \<Longrightarrow> match_lazy_Z (m @ ''Z'' @ t) \<noteq> None"
  by (induction m) auto

lemma match_lazy_Z_first:
  "CHR 0x0A \<notin> set m \<Longrightarrow> CHR ''Z'' \<notin> set m \<Longrightarrow> match_marker t \<noteq> None \<Longrightarrow>
     match_lazy_Z (m @ ''Z'' @ t) = match_marker t"
  by (induction m) auto

lemma strip_dropWhile: "strip (dropWhile is_space s) = strip s"
  by (simp add: strip_def)

lemma stamped_matches:
  assumes "stamped line d m ws rest"
  shows "match_timestamp_marker line = match_lazy_Z (m @ ''Z'' @ ws @ ''##[error]'' @ rest)"
    and "match_marker (ws @ ''##[error]'' @ rest) = Some (dropWhile is_space rest)"
proof -
  from assms have "match_seq date_T line = Some (m @ ''Z'' @ ws @ ''##[error]'' @ rest)"
    unfolding stamped_def match_seq_iff by blast
  then show "match_timestamp_marker line = match_lazy_Z (m @ ''Z'' @ ws @ ''##[error]'' @ rest)"
    by (simp add: match_timestamp_marker_def)
  from assms show "match_marker (ws @ ''##[error]'' @ rest) = Some (dropWhile is_space rest)"
    unfolding stamped_def match_marker_iff by blast
qed

lemma matched_is_stamped:
  assumes "match_timestamp_marker line = Some r"
  shows "\<exists>d m ws rest. stamped line d m ws rest \<and> r = dropWhile is_space rest \<and>
           (\<forall>d' m' ws' rest'. stamped line d' m' ws' rest' \<longrightarrow> length m \<le> length m')"
proof -
  from assms obtain s where s: "match_seq date_T line = Some s" and z: "match_lazy_Z s = Some r"
    by (auto simp add: match_timestamp_marker_def split: option.splits)
  from s obtain d where d: "line = d @ s" "list_all2 (\<lambda>p c. p c) date_T d"
    unfolding match_seq_iff by blast
  from match_lazy_Z_sound [OF z] obtain m t where
    m: "s = m @ ''Z'' @ t" "CHR 0x0A \<notin> set m" "match_marker t = Some r"
    and least: "\<forall>m' t'. s = m' @ ''Z'' @ t' \<and> match_marker t' \<noteq> None \<longrightarrow> length m \<le> length m'"
    by blast
  from m(3) obtain ws rest where
    t: "t = ws @ ''##[error]'' @ rest" "list_all is_space ws" "r = dropWhile is_space rest"
    unfolding match_marker_iff by blast
  have st: "stamped line d m ws rest"
    using d m t by (simp add: stamped_def)
  have "length m \<le> length m'" if o: "stamped line d' m' ws' rest'" for d' m' ws' rest'
  proof -
    from stamped_matches(1) [OF o] have "match_seq date_T line = Some (m' @ ''Z'' @ ws' @ ''##[error]'' @ rest')"
      using o unfolding stamped_def match_seq_iff by blast
    with s have "s = m' @ ''Z'' @ (ws' @ ''##[error]'' @ rest')" by simp
    moreover have "match_marker (ws' @ ''##[error]'' @ rest') \<noteq> None"
      using stamped_matches(2) [OF o] by simp
    ultimately show ?thesis using least by blast
  qed
  with st t(3) show ?thesis by blast
qed

lemma stamped_is_matched:
  assumes "stamped line d m ws rest"
  shows "match_timestamp_marker line \<noteq> None"
proof -
  have "CHR 0x0A \<notin> set m"
    using assms by (simp add: stamped_def)
  then show ?thesis
    using stamped_matches [OF assms] match_lazy_Z_complete [of m "ws @ ''##[error]'' @ rest"]
    by simp
qed

text \<open>
  C9, as the code has it. \<open>normalize\<close> removes a leading match of the pattern and strips what
  is left. When the line is stamped and the text between \<open>T\<close> and \<open>Z\<close> holds no \<open>Z\<close> (as in a
  time of day), what is left is the text after the marker. In general, of all the ways to
  read the line as stamped the one with the shortest text before \<open>Z\<close> is taken. A line
  that is not stamped is only stripped. The pattern checks the shape of the date only: the
  text between \<open>T\<close> and \<open>Z\<close> need not be a time.
\<close>

theorem normalize_strips_stamp:
  "(stamped line d m ws rest \<and> CHR ''Z'' \<notin> set m \<longrightarrow> normalize line = strip rest) \<and>
   ((\<exists>d m ws rest. stamped line d m ws rest) \<longrightarrow>
      (\<exists>d m ws rest. stamped line d m ws rest \<and> normalize line = strip rest \<and>
         (\<forall>d' m' ws' rest'. stamped line d' m' ws' rest' \<longrightarrow> length m \<le> length m'))) \<and>
   (\<not> (\<exists>d m ws rest. stamped line d m ws rest) \<longrightarrow> normalize line = strip line) \<and>
   normalize ''2024-05-01T12:00:00.000Z ##[error] Something broke'' = ''Something broke''"
proof (intro conjI impI)
  assume a: "stamped line d m ws rest \<and> CHR ''Z'' \<notin> set m"
  then have st: "stamped line d m ws rest" and z: "CHR ''Z'' \<notin> set m" by simp_all
  have nl: "CHR 0x0A \<notin> set m"
    using st by (simp add: stamped_def)
  have "match_timestamp_marker line = Some (dropWhile is_space rest)"
    using stamped_matches [OF st] match_lazy_Z_first [OF nl z, of "ws @ ''##[error]'' @ rest"]
    by simp
  then show "normalize line = strip rest"
    by (simp add: normalize_def sub_timestamp_marker_def strip_dropWhile)
next
  assume "\<exists>d m ws rest. stamped line d m ws rest"
  then obtain d m ws rest where st: "stamped line d m ws rest" by blast
  have nl: "CHR 0x0A \<notin> set m"
    using st by (simp add: stamped_def)
  have "match_timestamp_marker line \<noteq> None"
    using stamped_matches [OF st] match_lazy_Z_complete [OF nl, of "ws @ ''##[error]'' @ rest"]
    by simp
  then obtain r where r: "match_timestamp_marker line = Some r" by blast
  from matched_is_stamped [OF r] obtain d1 m1 ws1 rest1 where
    o: "stamped line d1 m1 ws1 rest1" "r = dropWhile is_space rest1"
       "\<forall>d' m' ws' rest'. stamped line d' m' ws' rest' \<longrightarrow> length m1 \<le> length m'"
    by blast
  have "normalize line = strip rest1"
    using r o(2) by (simp add: normalize_def sub_timestamp_marker_def strip_dropWhile)
  with o show "\<exists>d m ws rest. stamped line d m ws rest \<and> normalize line = strip rest \<and>
         (\<forall>d' m' ws' rest'. stamped line d' m' ws' rest' \<longrightarrow> length m \<le> length m')"
    by blast
next
  assume no: "\<not> (\<exists>d m ws rest. stamped line d m ws rest)"
  have "match_timestamp_marker line = None"
  proof (rule ccontr)
    assume "match_timestamp_marker line \<noteq> None"
    then obtain r where "match_timestamp_marker line = Some r" by blast
    from matched_is_stamped [OF this] no show False by blast
  qed
  then show "normalize line = strip line"
    by (simp add: normalize_def sub_timestamp_marker_def)
next
  show "normalize ''2024-05-01T12:00:00.000Z ##[error] Something broke'' = ''Something broke''"
    by code_simp
qed

theorem normalize_strips_stamp_witness:
  "stamped ''2024-05-01T12:00:00.000Z ##[error] Something broke''
     ''2024-05-01T'' ''12:00:00.000'' '' '' '' Something broke'' \<and>
   normalize ''2024-05-01T12:00:00.000Z ##[error] Something broke'' = ''Something broke'' \<and>
   \<not> (\<exists>d m ws rest. stamped ''  ERROR: disk full '' d m ws rest) \<and>
   normalize ''  ERROR: disk full '' = ''ERROR: disk full''"
proof -
  have s: "stamped ''2024-05-01T12:00:00.000Z ##[error] Something broke''
     ''2024-05-01T'' ''12:00:00.000'' '' '' '' Something broke''"
    by (simp add: stamped_def date_T_def is_digit_def is_space_def)
  have z: "CHR ''Z'' \<notin> set ''12:00:00.000''"
    by simp
  have t: "strip '' Something broke'' = ''Something broke''"
    by code_simp
  have "match_timestamp_marker ''  ERROR: disk full '' = None"
    by code_simp
  then have no: "\<not> (\<exists>d m ws rest. stamped ''  ERROR: disk full '' d m ws rest)"
    using stamped_is_matched by blast
  have u: "strip ''  ERROR: disk full '' = ''ERROR: disk full''"
    by code_simp
  show ?thesis
    using normalize_strips_stamp [of "''2024-05-01T12:00:00.000Z ##[error] Something broke''"
            "''2024-05-01T''" "''12:00:00.000''" "'' ''" "'' Something broke''"]
          normalize_strips_stamp [of "''  ERROR: disk full ''"]
          s z t no u
    by simp
qed

text \<open>
  C9 as stated fails on a line with no timestamp at all: it is a candidate error line, it
  has no white space to strip at either end, and yet its text up to the marker is removed.
\<close>

theorem normalize_counterexample:
  "is_error ''1234-56-78T hello Z ##[error] boom'' \<and>
   \<not> is_noise ''1234-56-78T hello Z ##[error] boom'' \<and>
   normalize ''1234-56-78T hello Z ##[error] boom'' = ''boom'' \<and>
   strip ''1234-56-78T hello Z ##[error] boom'' = ''1234-56-78T hello Z ##[error] boom''"
  by code_simp

section \<open>Extraction\<close>

lemma scan_lines_raw:
  "scan_lines name ls st =
     fold scan_raw (map (\<lambda>(idx, line). (name, idx, line)) (enumerate 1 ls)) st"
  by (simp add: scan_lines_def fold_map scan_raw_def comp_def case_prod_unfold)

lemma scan_entries_Inr_iff:
  "scan_entries z names st = Inr st' \<longleftrightarrow>
     (\<forall>name \<in> set names. \<not> isl (read_text z name)) \<and>
     st' = fold scan_raw (concat (map (entry_lines z) names)) st"
proof (induction names arbitrary: st)
  case Nil
  show ?case by auto
next
  case (Cons name names)
  show ?case
  proof (cases "read_text z name")
    case (Inl x)
    then show ?thesis by simp
  next
    case (Inr content)
    then show ?thesis
      using Cons [of "scan_lines name (splitlines content) st"]
      by (simp add: entry_lines_def scan_lines_raw)
  qed
qed

lemma scan_entries_Inl:
  "scan_entries z names st = Inl x \<Longrightarrow> \<exists>name \<in> set names. read_text z name = Inl x"
proof (induction names arbitrary: st)
  case Nil
  then show ?case by simp
next
  case (Cons name names)
  then show ?case
    by (cases "read_text z name") auto
qed

lemma scan_raw_skip:
  assumes "case l of (name, idx, line) \<Rightarrow> is_noise line \<or> \<not> is_error line"
  shows "scan_raw l st = st"
  using assms by (cases l; cases st) (auto simp add: scan_raw_def scan_line_def)

lemma scan_raw_keep:
  assumes "case l of (name, idx, line) \<Rightarrow> \<not> is_noise line \<and> is_error line"
  shows "scan_raw l (seen, errs) =
           (if dedup_key l \<in> seen then (seen, errs)
            else (insert (dedup_key l) seen, errs @ [entry_of l]))"
  using assms by (cases l) (auto simp add: scan_raw_def scan_line_def dedup_key_def entry_of_def Let_def)

lemma fold_scan_raw_filter:
  assumes "\<And>l. \<not> P l \<Longrightarrow> (case l of (name, idx, line) \<Rightarrow> is_noise line \<or> \<not> is_error line)"
  shows "fold scan_raw ls st = fold scan_raw (filter P ls) st"
proof (induction ls arbitrary: st)
  case Nil
  show ?case by simp
next
  case (Cons l ls)
  show ?case
  proof (cases "P l")
    case True
    with Cons show ?thesis by simp
  next
    case False
    then have "scan_raw l st = st"
      using assms scan_raw_skip by blast
    with False Cons show ?thesis by simp
  qed
qed

lemma fold_scan_raw_keep:
  assumes "\<forall>l \<in> set ls. case l of (name, idx, line) \<Rightarrow> \<not> is_noise line \<and> is_error line"
  shows "fold scan_raw ls (seen, errs) =
           (seen \<union> dedup_key ` set ls, errs @ map entry_of (first_seen seen ls))"
  using assms
proof (induction ls arbitrary: seen errs)
  case Nil
  show ?case by simp
next
  case (Cons l ls)
  then have keep: "case l of (name, idx, line) \<Rightarrow> \<not> is_noise line \<and> is_error line"
    and rest: "\<forall>l \<in> set ls. case l of (name, idx, line) \<Rightarrow> \<not> is_noise line \<and> is_error line"
    by simp_all
  show ?case
  proof (cases "dedup_key l \<in> seen")
    case True
    then have "insert (dedup_key l) (seen \<union> dedup_key ` set ls) = seen \<union> dedup_key ` set ls"
      by blast
    with True show ?thesis
      using scan_raw_keep [OF keep, of seen errs] Cons.IH [OF rest, of seen errs] by simp
  next
    case False
    then show ?thesis
      using scan_raw_keep [OF keep, of seen errs]
            Cons.IH [OF rest, of "insert (dedup_key l) seen" "errs @ [entry_of l]"]
      by simp
  qed
qed

lemma extract_from_Inr_fold:
  "extract_from z = Inr errs \<longleftrightarrow>
     readable z \<and> errs = snd (fold scan_raw (archive_lines z) ({}, []))"
proof (cases "scan_entries z (namelist z) ({}, [])")
  case (Inl x)
  from scan_entries_Inl [OF Inl] obtain name
    where "name \<in> set (namelist z)" and "read_text z name = Inl x"
    by blast
  then have "\<exists>name \<in> set (namelist z). isl (read_text z name)"
    by (intro bexI [of _ name]) simp_all
  then have "\<not> readable z"
    by (simp add: readable_def)
  with Inl show ?thesis
    by (simp add: extract_from_def)
next
  case (Inr st')
  obtain seen errs' where st': "st' = (seen, errs')"
    by (cases st')
  from Inr have rd: "readable z"
    and f: "fold scan_raw (archive_lines z) ({}, []) = (seen, errs')"
    unfolding scan_entries_Inr_iff st' by (simp_all add: readable_def archive_lines_def)
  from Inr show ?thesis
    by (auto simp add: extract_from_def st' rd f)
qed

lemma fold_archive_lines:
  "fold scan_raw (archive_lines z) ({}, []) =
     (dedup_key ` set (error_lines z), map entry_of (first_seen {} (error_lines z)))"
proof -
  have "fold scan_raw (archive_lines z) ({}, []) = fold scan_raw (error_lines z) ({}, [])"
    unfolding error_lines_def by (rule fold_scan_raw_filter) auto
  also have "\<dots> = ({} \<union> dedup_key ` set (error_lines z),
                     [] @ map entry_of (first_seen {} (error_lines z)))"
    by (rule fold_scan_raw_keep) (auto simp add: error_lines_def)
  finally show ?thesis
    by simp
qed

lemma extract_from_first_seen:
  "extract_from z = Inr errs \<longleftrightarrow>
     readable z \<and> errs = map entry_of (first_seen {} (error_lines z))"
  by (simp add: extract_from_Inr_fold fold_archive_lines)

lemma extract_from_readable: "readable z \<Longrightarrow> \<exists>errs. extract_from z = Inr errs"
  by (simp add: extract_from_first_seen)

lemma extract_from_Inl:
  "extract_from z = Inl x \<Longrightarrow> \<exists>name \<in> set (namelist z). read_text z name = Inl x"
  using scan_entries_Inl [of z "namelist z" "({}, [])" x]
  by (auto simp add: extract_from_def split: sum.splits)

lemma first_seen_subset: "set (first_seen seen ls) \<subseteq> set ls"
  by (induction ls arbitrary: seen) auto

lemma first_seen_fresh: "l \<in> set (first_seen seen ls) \<Longrightarrow> dedup_key l \<notin> seen"
  by (induction ls arbitrary: seen) (auto split: if_splits)

lemma first_seen_distinct: "distinct (map dedup_key (first_seen seen ls))"
proof (induction ls arbitrary: seen)
  case Nil
  show ?case by simp
next
  case (Cons l ls)
  have "dedup_key l \<notin> dedup_key ` set (first_seen (insert (dedup_key l) seen) ls)"
  proof
    assume "dedup_key l \<in> dedup_key ` set (first_seen (insert (dedup_key l) seen) ls)"
    then obtain l' where "l' \<in> set (first_seen (insert (dedup_key l) seen) ls)"
      and "dedup_key l' = dedup_key l"
      by auto
    with first_seen_fresh [of l' "insert (dedup_key l) seen" ls] show False
      by simp
  qed
  with Cons show ?case by simp
qed

lemma first_seen_filter:
  "filter (\<lambda>l. dedup_key l = k) (first_seen seen ls) =
     (if k \<in> seen then []
      else case find (\<lambda>l. dedup_key l = k) ls of None \<Rightarrow> [] | Some l \<Rightarrow> [l])"
proof (induction ls arbitrary: seen)
  case Nil
  show ?case by simp
next
  case (Cons l ls)
  show ?case
  proof (cases "dedup_key l \<in> seen")
    case True
    with Cons show ?thesis by auto
  next
    case False
    with Cons [of "insert (dedup_key l) seen"] show ?thesis by auto
  qed
qed

lemma key_entry_of: "lower (error_line (entry_of l)) = dedup_key l"
  by (cases l) (simp add: entry_of_def dedup_key_def)

text \<open>
  C2. Extraction returns its list for every readable archive (an entry that cannot be
  read ends it with the exception). No two extracted errors have the same text up to case.
  For every text \<open>k\<close>: when no
  error line of the archive normalises to \<open>k\<close> up to case, no extracted error has it; when
  some do, however many, exactly one extracted error has it, and it is the one built from
  the first such line in the order of the archive (its entry name, its line number and its
  own normalised text).
\<close>

theorem dedup_first_wins:
  "(readable z \<longrightarrow> (\<exists>errs. extract_from z = Inr errs)) \<and>
   (extract_from z = Inr errs \<longrightarrow>
      distinct (map (\<lambda>e. lower (error_line e)) errs) \<and>
      (\<forall>k. filter (\<lambda>e. lower (error_line e) = k) errs =
         (case find (\<lambda>(name, idx, line). lower (normalize line) = k) (error_lines z) of
            None \<Rightarrow> []
          | Some (name, idx, line) \<Rightarrow>
              [\<lparr>job_step = str_replace ''.txt'' [] name, line_no = idx,
                error_line = normalize line\<rparr>])))"
proof (intro conjI impI allI)
  assume "readable z"
  then show "\<exists>errs. extract_from z = Inr errs"
    by (rule extract_from_readable)
next
  assume "extract_from z = Inr errs"
  then have errs: "errs = map entry_of (first_seen {} (error_lines z))"
    by (simp add: extract_from_first_seen)
  have "map (\<lambda>e. lower (error_line e)) errs =
          map dedup_key (first_seen {} (error_lines z))"
    by (simp add: errs key_entry_of comp_def)
  then show "distinct (map (\<lambda>e. lower (error_line e)) errs)"
    using first_seen_distinct by simp
next
  fix k
  assume "extract_from z = Inr errs"
  then have errs: "errs = map entry_of (first_seen {} (error_lines z))"
    by (simp add: extract_from_first_seen)
  have f: "(\<lambda>(name, idx, line). lower (normalize line) = k) = (\<lambda>l. dedup_key l = k)"
    by (simp add: dedup_key_def fun_eq_iff)
  have "filter (\<lambda>e. lower (error_line e) = k) errs =
          map entry_of (filter (\<lambda>l. dedup_key l = k) (first_seen {} (error_lines z)))"
    by (simp add: errs filter_map comp_def key_entry_of)
  also have "\<dots> = (case find (\<lambda>l. dedup_key l = k) (error_lines z) of
                       None \<Rightarrow> [] | Some l \<Rightarrow> [entry_of l])"
    by (simp add: first_seen_filter split: option.splits)
  finally show "filter (\<lambda>e. lower (error_line e) = k) errs =
      (case find (\<lambda>(name, idx, line). lower (normalize line) = k) (error_lines z) of
         None \<Rightarrow> []
       | Some (name, idx, line) \<Rightarrow>
           [\<lparr>job_step = str_replace ''.txt'' [] name, line_no = idx,
             error_line = normalize line\<rparr>])"
    unfolding f by (simp add: entry_of_def split: option.splits prod.splits)
qed

theorem dedup_first_wins_witness:
  "readable sample_archive \<and>
   error_lines sample_archive =
     [(''build/1_Set up job.txt'', 2, ''2024-05-01T12:00:00.000Z ##[error] Something broke''),
      (''build/2_Run tests.txt'', 1, ''2024-05-01T12:00:01.000Z ##[error] SOMETHING BROKE''),
      (''build/2_Run tests.txt'', 2, ''ModuleNotFoundError: No module named requests'')] \<and>
   extract_from sample_archive =
     Inr [\<lparr>job_step = ''build/1_Set up job'', line_no = 2, error_line = ''Something broke''\<rparr>,
          \<lparr>job_step = ''build/2_Run tests'', line_no = 2,
            error_line = ''ModuleNotFoundError: No module named requests''\<rparr>] \<and>
   filter (\<lambda>e. lower (error_line e) = ''something broke'')
     [\<lparr>job_step = ''build/1_Set up job'', line_no = 2, error_line = ''Something broke''\<rparr>,
      \<lparr>job_step = ''build/2_Run tests'', line_no = 2,
        error_line = ''ModuleNotFoundError: No module named requests''\<rparr>] =
     [\<lparr>job_step = ''build/1_Set up job'', line_no = 2, error_line = ''Something broke''\<rparr>]"
proof -
  have rd: "readable sample_archive"
    by (simp add: readable_def sample_archive_def)
  have l: "error_lines sample_archive =
     [(''build/1_Set up job.txt'', 2, ''2024-05-01T12:00:00.000Z ##[error] Something broke''),
      (''build/2_Run tests.txt'', 1, ''2024-05-01T12:00:01.000Z ##[error] SOMETHING BROKE''),
      (''build/2_Run tests.txt'', 2, ''ModuleNotFoundError: No module named requests'')]"
    by code_simp
  define errs where "errs =
     [\<lparr>job_step = ''build/1_Set up job'', line_no = 2, error_line = ''Something broke''\<rparr>,
      \<lparr>job_step = ''build/2_Run tests'', line_no = 2,
        error_line = ''ModuleNotFoundError: No module named requests''\<rparr>]"
  have x: "extract_from sample_archive = Inr errs"
    unfolding errs_def by code_simp
  have f: "find (\<lambda>(name, idx, line). lower (normalize line) = ''something broke'')
             (error_lines sample_archive) =
           Some (''build/1_Set up job.txt'', 2, ''2024-05-01T12:00:00.000Z ##[error] Something broke'')"
    by code_simp
  have n: "normalize ''2024-05-01T12:00:00.000Z ##[error] Something broke'' = ''Something broke''"
    by code_simp
  have r: "str_replace ''.txt'' [] ''build/1_Set up job.txt'' = ''build/1_Set up job''"
    by code_simp
  from dedup_first_wins [of sample_archive errs] x
  have "filter (\<lambda>e. lower (error_line e) = ''something broke'') errs =
          (case find (\<lambda>(name, idx, line). lower (normalize line) = ''something broke'')
                  (error_lines sample_archive) of
             None \<Rightarrow> []
           | Some (name, idx, line) \<Rightarrow>
               [\<lparr>job_step = str_replace ''.txt'' [] name, line_no = idx,
                 error_line = normalize line\<rparr>])"
    by blast
  then have k: "filter (\<lambda>e. lower (error_line e) = ''something broke'') errs =
          [\<lparr>job_step = ''build/1_Set up job'', line_no = 2, error_line = ''Something broke''\<rparr>]"
    unfolding f by (simp add: n r)
  show ?thesis
    using rd l x k unfolding errs_def by blast
qed

lemma scan_line_noise: "is_noise line \<Longrightarrow> scan_line name idx line st = st"
  by (cases st) (simp add: scan_line_def)

lemma extract_from_without_noise:
  "extract_from z = Inr errs \<longleftrightarrow>
     readable z \<and>
     errs = snd (fold scan_raw (filter (\<lambda>(name, idx, line). \<not> is_noise line) (archive_lines z))
                      ({}, []))"
proof -
  have "fold scan_raw (archive_lines z) ({}, []) =
          fold scan_raw (filter (\<lambda>(name, idx, line). \<not> is_noise line) (archive_lines z)) ({}, [])"
    by (rule fold_scan_raw_filter) auto
  then show ?thesis
    by (simp add: extract_from_Inr_fold)
qed

text \<open>
  C3. A line that matches a noise pattern leaves \<open>seen_errors\<close> and \<open>errors\<close> as they are,
  whether or not it matches an error pattern; extraction returns exactly when the archive
  is readable, and the errors it returns are those extracted from the lines that are not
  noise; and a readable archive whose lines are all noise gives no error.
\<close>

theorem noise_precedence:
  "(is_noise line \<longrightarrow> scan_line name idx line st = st) \<and>
   (extract_from z = Inr errs \<longleftrightarrow>
      readable z \<and>
      errs = snd (fold scan_raw (filter (\<lambda>(name, idx, line). \<not> is_noise line) (archive_lines z))
                       ({}, []))) \<and>
   (readable z \<and> (\<forall>(name, idx, line) \<in> set (archive_lines z). is_noise line) \<longrightarrow>
      extract_from z = Inr [])"
proof (intro conjI impI)
  assume "is_noise line"
  then show "scan_line name idx line st = st"
    by (rule scan_line_noise)
next
  show "extract_from z = Inr errs \<longleftrightarrow>
      readable z \<and>
      errs = snd (fold scan_raw (filter (\<lambda>(name, idx, line). \<not> is_noise line) (archive_lines z))
                       ({}, []))"
    by (rule extract_from_without_noise)
next
  assume a: "readable z \<and> (\<forall>(name, idx, line) \<in> set (archive_lines z). is_noise line)"
  then have "filter (\<lambda>(name, idx, line). \<not> is_noise line) (archive_lines z) = []"
    by (auto simp add: filter_empty_conv)
  then show "extract_from z = Inr []"
    using a by (simp add: extract_from_without_noise)
qed

theorem noise_precedence_witness:
  "is_noise ''Process completed with exit code ERROR'' \<and>
   is_error ''Process completed with exit code ERROR'' \<and>
   scan_line ''build/3_Run tests.txt'' 1 ''Process completed with exit code ERROR'' ({}, []) = ({}, []) \<and>
   readable noise_archive \<and>
   archive_lines noise_archive =
     [(''build/3_Run tests.txt'', 1, ''Process completed with exit code ERROR'')] \<and>
   extract_from noise_archive = Inr []"
proof -
  have n: "is_noise ''Process completed with exit code ERROR''"
    by code_simp
  have e: "is_error ''Process completed with exit code ERROR''"
    by code_simp
  have rd: "readable noise_archive"
    by (simp add: readable_def noise_archive_def)
  have a: "archive_lines noise_archive =
     [(''build/3_Run tests.txt'', 1, ''Process completed with exit code ERROR'')]"
    by code_simp
  show ?thesis
    using noise_precedence [of "''Process completed with exit code ERROR''"
            "''build/3_Run tests.txt''" 1 "({}, [])" noise_archive] n e rd a
    by simp
qed

lemma archive_lines_names: "(name, idx, line) \<in> set (archive_lines z) \<Longrightarrow> name \<in> set (namelist z)"
  by (auto simp add: archive_lines_def entry_lines_def split: sum.splits)

lemma replace_txt_clean:
  "\<not> sublist ''.txt'' a \<Longrightarrow> str_replace ''.txt'' [] a = a"
proof (induction a)
  case Nil
  show ?case by simp
next
  case (Cons c a)
  then have "\<not> prefix ''.txt'' (c # a)" and "\<not> sublist ''.txt'' a"
    by (simp_all add: sublist_Cons_right)
  with Cons.IH show ?case by auto
qed

lemma replace_txt_first:
  "\<not> sublist ''.txt'' a \<Longrightarrow>
     str_replace ''.txt'' [] (a @ ''.txt'' @ b) = a @ str_replace ''.txt'' [] b"
proof (induction a)
  case Nil
  show ?case by simp
next
  case (Cons c a)
  then have np: "\<not> prefix ''.txt'' (c # a)" and ns: "\<not> sublist ''.txt'' a"
    by (simp_all add: sublist_Cons_right)
  have "\<not> prefix ''.txt'' (c # a @ ''.txt'' @ b)"
  proof
    assume p: "prefix ''.txt'' (c # a @ ''.txt'' @ b)"
    show False
    proof (cases a)
      case Nil
      with p show False by simp
    next
      case (Cons a1 a')
      note A1 = this
      show False
      proof (cases a')
        case Nil
        with p A1 show False by simp
      next
        case (Cons a2 a'')
        note A2 = this
        show False
        proof (cases a'')
          case Nil
          with p A1 A2 show False by simp
        next
          case (Cons a3 a''')
          with p A1 A2 np show False by auto
        qed
      qed
    qed
  qed
  with Cons.IH [OF ns] show ?case by auto
qed

text \<open>
  C7, as the code has it. Extraction returns its list for every readable archive. Every
  extracted error is built from an error line of an entry
  of the archive, and its \<open>job_step\<close> is \<open>name.replace(".txt", "")\<close> for the name of that
  entry: every \<open>.txt\<close> in the name is removed, from left to right. A text with no \<open>.txt\<close> is
  left as it is; so a name whose only \<open>.txt\<close> is its extension loses the extension, and a
  name with a \<open>.txt\<close> earlier loses that one too.
\<close>

theorem job_step_replaces_every_txt:
  "(readable z \<longrightarrow> (\<exists>errs. extract_from z = Inr errs)) \<and>
   (extract_from z = Inr errs \<longrightarrow>
      (\<forall>e \<in> set errs. \<exists>(name, idx, line) \<in> set (error_lines z).
         name \<in> set (namelist z) \<and>
         e = \<lparr>job_step = str_replace ''.txt'' [] name, line_no = idx,
               error_line = normalize line\<rparr>)) \<and>
   (\<not> sublist ''.txt'' a \<longrightarrow>
      str_replace ''.txt'' [] a = a \<and>
      str_replace ''.txt'' [] (a @ ''.txt'') = a \<and>
      str_replace ''.txt'' [] (a @ ''.txt'' @ b) = a @ str_replace ''.txt'' [] b)"
proof (intro conjI impI ballI)
  assume "readable z"
  then show "\<exists>errs. extract_from z = Inr errs"
    by (rule extract_from_readable)
next
  fix e
  assume "extract_from z = Inr errs" and "e \<in> set errs"
  then obtain l where l: "l \<in> set (error_lines z)" and e: "e = entry_of l"
    using first_seen_subset [of "{}" "error_lines z"] by (auto simp add: extract_from_first_seen)
  obtain name idx line where nil: "l = (name, idx, line)"
    by (cases l)
  with l have "name \<in> set (namelist z)"
    using archive_lines_names [of name idx line z] by (simp add: error_lines_def)
  with l e nil show "\<exists>(name, idx, line) \<in> set (error_lines z).
      name \<in> set (namelist z) \<and>
      e = \<lparr>job_step = str_replace ''.txt'' [] name, line_no = idx, error_line = normalize line\<rparr>"
    by (auto simp add: entry_of_def intro!: bexI [of _ l])
next
  assume "\<not> sublist ''.txt'' a"
  then show "str_replace ''.txt'' [] a = a"
    by (rule replace_txt_clean)
next
  assume "\<not> sublist ''.txt'' a"
  then show "str_replace ''.txt'' [] (a @ ''.txt'') = a"
    using replace_txt_first [of a "[]"] by simp
next
  assume "\<not> sublist ''.txt'' a"
  then show "str_replace ''.txt'' [] (a @ ''.txt'' @ b) = a @ str_replace ''.txt'' [] b"
    by (rule replace_txt_first)
qed

theorem job_step_replaces_every_txt_witness:
  "readable sample_archive \<and>
   extract_from sample_archive =
     Inr [\<lparr>job_step = ''build/1_Set up job'', line_no = 2, error_line = ''Something broke''\<rparr>,
          \<lparr>job_step = ''build/2_Run tests'', line_no = 2,
            error_line = ''ModuleNotFoundError: No module named requests''\<rparr>] \<and>
   \<not> sublist ''.txt'' ''build/1_Set up job'' \<and>
   str_replace ''.txt'' [] ''build/1_Set up job.txt'' = ''build/1_Set up job'' \<and>
   str_replace ''.txt'' [] ''check.txt files/1_Set up job.txt'' = ''check files/1_Set up job''"
proof -
  have rd: "readable sample_archive"
    by (simp add: readable_def sample_archive_def)
  have x: "extract_from sample_archive =
     Inr [\<lparr>job_step = ''build/1_Set up job'', line_no = 2, error_line = ''Something broke''\<rparr>,
          \<lparr>job_step = ''build/2_Run tests'', line_no = 2,
            error_line = ''ModuleNotFoundError: No module named requests''\<rparr>]"
    by code_simp
  have n: "\<not> sublist ''.txt'' ''build/1_Set up job''"
    by code_simp
  have c: "\<not> sublist ''.txt'' ''check''"
    by code_simp
  have r: "str_replace ''.txt'' [] '' files/1_Set up job.txt'' = '' files/1_Set up job''"
    by code_simp
  show ?thesis
    using job_step_replaces_every_txt [where z = sample_archive and a = "''build/1_Set up job''"
            and b = "[]"]
          job_step_replaces_every_txt [where z = sample_archive and a = "''check''"
            and b = "'' files/1_Set up job.txt''"]
          rd x n c r
    by simp
qed

text \<open>
  C7 as stated fails for an entry of a job whose name holds \<open>.txt\<close>: the \<open>.txt\<close> inside the
  name is removed together with the extension.
\<close>

theorem job_step_counterexample:
  "namelist txt_job_archive = [''check.txt files/1_Set up job.txt''] \<and>
   extract_from txt_job_archive =
     Inr [\<lparr>job_step = ''check files/1_Set up job'', line_no = 1,
           error_line = ''ERROR: disk full''\<rparr>]"
  by code_simp

section \<open>Suggestions\<close>

text \<open>
  C4. An error text that contains \<open>modulenotfounderror\<close> up to case gets the suggestion of
  the rule table, whatever the generator would answer, and the trace of calls is returned
  as it was given: \<open>llm\<close> is not called.
\<close>

theorem rule_precedence:
  assumes "str_in ''modulenotfounderror'' (lower error_text)"
  shows "ai_fix e error_text tr =
           Inr (''Cause: A required Python dependency is missing.\<newline>Fix: Add the missing package to requirements.txt and ensure dependencies are installed in the workflow.'', tr)"
  using assms by (simp add: ai_fix_def rule_based_fix_def)

text \<open>
  The text of the specification's example, with a generator whose answer \<open>ai_fix\<close> could
  not read (\<open>response[0]\<close> would raise).
\<close>

theorem rule_precedence_witness:
  "str_in ''modulenotfounderror'' (lower missing_module_line) \<and>
   ai_fix silent_llm_env missing_module_line [] =
     Inr (''Cause: A required Python dependency is missing.\<newline>Fix: Add the missing package to requirements.txt and ensure dependencies are installed in the workflow.'', [])"
proof -
  have h: "str_in ''modulenotfounderror'' (lower missing_module_line)"
    by code_simp
  show ?thesis
    using h rule_precedence [OF h, of silent_llm_env "[]"] by simp
qed

text \<open>
  C5. Whenever the generator answers (its list of results is not empty), \<open>ai_fix\<close> returns
  a suggestion, and the suggestion holds the label \<open>Cause:\<close> and the label \<open>Fix:\<close>. When no
  rule matches and the generator's text lacks one of the two labels (the empty text
  included), the suggestion is the generic one. The labels are looked for in the stripped
  text; stripping neither adds nor removes a label.
\<close>

theorem advise_never_fails:
  assumes "llm e (prompt_for error_text) 80 = d # ds"
  shows "\<exists>s tr'. ai_fix e error_text tr = Inr (s, tr') \<and>
           str_in ''Cause:'' s \<and> str_in ''Fix:'' s \<and>
           (rule_based_fix error_text = None \<and>
            (\<not> str_in ''Cause:'' (output_text d) \<or> \<not> str_in ''Fix:'' (output_text d)) \<longrightarrow>
              s = ''Cause: The workflow failed due to a configuration or dependency issue.\<newline>Fix: Review the error message and update the workflow or project files accordingly.'')"
proof (cases "rule_based_fix error_text")
  case None
  have lit: "generic_fix = ''Cause: The workflow failed due to a configuration or dependency issue.\<newline>Fix: Review the error message and update the workflow or project files accordingly.''"
    by (simp add: generic_fix_def)
  show ?thesis
  proof (cases "str_in ''Cause:'' (output_text d) \<and> str_in ''Fix:'' (output_text d)")
    case True
    then have "ai_fix e error_text tr = Inr (strip (output_text d), tr @ [Llm (prompt_for error_text) 80])"
      using None assms by (simp add: ai_fix_def ai_generate_def Let_def Cause_strip Fix_strip)
    with True show ?thesis
      by (simp add: Cause_strip Fix_strip)
  next
    case False
    then have "ai_fix e error_text tr = Inr (generic_fix, tr @ [Llm (prompt_for error_text) 80])"
      using None assms by (auto simp add: ai_fix_def ai_generate_def Let_def Cause_strip Fix_strip)
    then show ?thesis
      using generic_fix_labels lit by simp
  qed
next
  case (Some rf)
  then have rf: "rf = ''Cause: A required Python dependency is missing.\<newline>Fix: Add the missing package to requirements.txt and ensure dependencies are installed in the workflow.''"
    by (auto simp add: rule_based_fix_def Let_def split: if_splits)
  have "str_in ''Cause:'' rf \<and> str_in ''Fix:'' rf"
    unfolding rf str_in_def by code_simp
  moreover have "ai_fix e error_text tr = Inr (rf, tr)"
    using Some rf by (simp add: ai_fix_def)
  ultimately show ?thesis
    using Some by simp
qed

theorem advise_never_fails_witness:
  "llm unlabelled_env (prompt_for ''ERROR: disk full'') 80 = [[''generated_text'' \<mapsto> ''It is broken.'']] \<and>
   rule_based_fix ''ERROR: disk full'' = None \<and>
   \<not> str_in ''Cause:'' (output_text [''generated_text'' \<mapsto> ''It is broken.'']) \<and>
   (\<exists>tr'. ai_fix unlabelled_env ''ERROR: disk full'' [] =
      Inr (''Cause: The workflow failed due to a configuration or dependency issue.\<newline>Fix: Review the error message and update the workflow or project files accordingly.'', tr'))"
proof -
  have h: "llm unlabelled_env (prompt_for ''ERROR: disk full'') 80 =
             [''generated_text'' \<mapsto> ''It is broken.''] # []"
    by (simp add: unlabelled_env_def)
  have r: "rule_based_fix ''ERROR: disk full'' = None"
    by code_simp
  have o: "output_text [''generated_text'' \<mapsto> ''It is broken.''] = ''It is broken.''"
    by (simp add: output_text_def or_else_def)
  have c: "\<not> str_in ''Cause:'' ''It is broken.''"
    by code_simp
  show ?thesis
    using advise_never_fails [OF h, of "[]"] h r o c by auto
qed

section \<open>The monitoring pass\<close>

lemma ai_fix_returns:
  assumes "\<And>p n. llm e p n \<noteq> []"
  shows "\<exists>s tr'. ai_fix e t tr = Inr (s, tr')"
proof -
  obtain d ds where "llm e (prompt_for t) 80 = d # ds"
    using assms [of "prompt_for t" 80] by (cases "llm e (prompt_for t) 80") auto
  then show ?thesis
    by (auto simp add: ai_fix_def ai_generate_def Let_def split: option.splits)
qed

lemma annotate_returns:
  assumes "\<And>p n. llm e p n \<noteq> []"
  shows "\<exists>info tr'. annotate e xs acc tr = Inr (info, tr')"
proof (induction xs arbitrary: acc tr)
  case Nil
  show ?case by simp
next
  case (Cons x xs)
  obtain idx err where x: "x = (idx, err)" by (cases x)
  obtain s tr1 where "ai_fix e (error_line err) (tr @ [Ai_fix (error_line err)]) = Inr (s, tr1)"
    using ai_fix_returns [OF assms] by blast
  then show ?case
    using Cons.IH x by simp
qed






lemma monitor_loop_raises:
  assumes "\<And>st. \<exists>x. monitor_step e w st = Inl x"
  shows "w \<in> set ws \<Longrightarrow> \<exists>x. monitor_loop e ws st = Inl x"
proof (induction ws arbitrary: st)
  case Nil
  then show ?case by simp
next
  case (Cons v ws)
  show ?case
  proof (cases "monitor_step e v st")
    case (Inl x)
    then show ?thesis by simp
  next
    case (Inr st')
    then have "v \<noteq> w"
      using assms [of st] by auto
    with Cons.prems have "w \<in> set ws" by simp
    with Cons.IH Inr show ?thesis by simp
  qed
qed

lemma extract_all_errors_error:
  assumes "\<forall>b z name x. ZipFile e b = Some z \<and> read_text z name = Inl x \<longrightarrow> x = BadZipFile"
    and "extract_all_errors e logs = Inl x"
  shows "x = BadZipFile"
proof (cases "ZipFile e logs")
  case None
  with assms(2) show ?thesis
    by (simp add: extract_all_errors_def)
next
  case (Some z)
  with assms(2) have "extract_from z = Inl x"
    by (simp add: extract_all_errors_def)
  then obtain name where "read_text z name = Inl x"
    using extract_from_Inl by blast
  with assms(1) Some show ?thesis by blast
qed

lemma monitor_step_error:
  assumes "\<forall>p n. llm e p n \<noteq> []"
    and "\<forall>b z name x. ZipFile e b = Some z \<and> read_text z name = Inl x \<longrightarrow> x = BadZipFile"
    and "monitor_step e w st = Inl x"
  shows "x = BadZipFile"
proof -
  have "\<And>p n. llm e p n \<noteq> []"
    using assms(1) by blast
  then have an: "\<And>xs acc tr. annotate e xs acc tr \<noteq> Inl x"
    using annotate_returns [of e] by (metis Inl_Inr_False)
  have ex: "\<And>logs. extract_all_errors e logs = Inl x \<Longrightarrow> x = BadZipFile"
    using extract_all_errors_error [OF assms(2)] by blast
  from assms(3) an ex show ?thesis
    by (auto simp add: monitor_step_def Let_def split: option.splits if_splits sum.splits)
qed

lemma monitor_loop_error:
  assumes "\<forall>p n. llm e p n \<noteq> []"
    and "\<forall>b z name x. ZipFile e b = Some z \<and> read_text z name = Inl x \<longrightarrow> x = BadZipFile"
  shows "monitor_loop e ws st = Inl x \<Longrightarrow> x = BadZipFile"
proof (induction ws arbitrary: st)
  case Nil
  then show ?case by simp
next
  case (Cons w ws)
  show ?case
  proof (cases "monitor_step e w st")
    case (Inl y)
    with Cons.prems have "monitor_step e w st = Inl x" by simp
    then show ?thesis
      by (rule monitor_step_error [OF assms])
  next
    case (Inr st1)
    with Cons.prems have "monitor_loop e ws st1 = Inl x" by simp
    then show ?thesis
      by (rule Cons.IH)
  qed
qed

text \<open>
  C1, as the code has it. A failed run whose download gave bytes that \<open>ZipFile\<close> rejects
  makes the step of its workflow raise \<open>BadZipFile\<close>; nothing catches it, so the pass raises
  and prints no summary. When the generator always answers and the reading of an entry
  raises nothing but \<open>BadZipFile\<close>, \<open>BadZipFile\<close> is the exception that leaves the pass.
\<close>

theorem corrupt_archive_raises:
  assumes "w \<in> set (list_workflows e)"
    and "latest_run e (wf_id w) = Some r"
    and "conclusion r = Some ''failure''"
    and "download_logs e (r_id r) = Some logs"
    and "logs \<noteq> []"
    and "ZipFile e logs = None"
  shows "monitor_step e w st = Inl BadZipFile \<and>
         (\<exists>x. monitor e = Inl x) \<and>
         ((\<forall>p n. llm e p n \<noteq> []) \<and>
          (\<forall>b z name x. ZipFile e b = Some z \<and> read_text z name = Inl x \<longrightarrow> x = BadZipFile) \<longrightarrow>
            monitor e = Inl BadZipFile)"
proof -
  have step: "monitor_step e w st' = Inl BadZipFile" for st'
    using assms by (simp add: monitor_step_def extract_all_errors_def)
  let ?st0 = "\<lparr>passed = 0, failed = 0, all_results = [], trace = [List_workflows]\<rparr>"
  obtain x where x: "monitor_loop e (list_workflows e) ?st0 = Inl x"
    using monitor_loop_raises [of e w "list_workflows e" ?st0] step assms(1) by blast
  then have m: "monitor e = Inl x"
    by (simp add: monitor_def)
  have "x = BadZipFile"
    if "(\<forall>p n. llm e p n \<noteq> []) \<and>
        (\<forall>b z name x. ZipFile e b = Some z \<and> read_text z name = Inl x \<longrightarrow> x = BadZipFile)"
    using that monitor_loop_error [OF _ _ x] by blast
  with step m show ?thesis by auto
qed

theorem corrupt_archive_raises_witness:
  "ci_workflow \<in> set (list_workflows corrupt_env) \<and>
   latest_run corrupt_env (wf_id ci_workflow) = Some failed_run \<and>
   conclusion failed_run = Some ''failure'' \<and>
   download_logs corrupt_env (r_id failed_run) = Some ''not a zip archive'' \<and>
   ZipFile corrupt_env ''not a zip archive'' = None \<and>
   monitor_step corrupt_env ci_workflow
     \<lparr>passed = 0, failed = 0, all_results = [], trace = [List_workflows]\<rparr> = Inl BadZipFile \<and>
   (\<exists>x. monitor corrupt_env = Inl x) \<and>
   monitor corrupt_env = Inl BadZipFile"
  using corrupt_archive_raises [of ci_workflow corrupt_env failed_run "''not a zip archive''"
          "\<lparr>passed = 0, failed = 0, all_results = [], trace = [List_workflows]\<rparr>"]
  by (simp add: corrupt_env_def failed_run_def labelled_llm_def)

text \<open>
  C1 as stated fails: one workflow, a failed run, a download that is not an archive, and
  the pass ends with the exception instead of a summary.
\<close>

theorem corrupt_archive_counterexample:
  "monitor corrupt_env = Inl BadZipFile"
  by (simp add: monitor_def corrupt_env_def monitor_step_def extract_all_errors_def
                failed_run_def ci_workflow_def)

text \<open>
  C8. A failed run whose download gave nothing (\<open>None\<close> or no bytes) adds one to \<open>failed\<close>
  and leaves \<open>passed\<close> and \<open>all_results\<close> as they were; the only calls made for the workflow
  are \<open>latest_run\<close> and \<open>download_logs\<close>, so neither \<open>extract_all_errors\<close> nor \<open>ai_fix\<close>
  (nor \<open>llm\<close>) is called; and the loop goes on with the next workflow.
\<close>

theorem failed_no_logs:
  assumes "latest_run e (wf_id w) = Some r"
    and "conclusion r = Some ''failure''"
    and "download_logs e (r_id r) = None \<or> download_logs e (r_id r) = Some []"
  shows "monitor_step e w st =
           Inr (st\<lparr>failed := failed st + 1,
                   trace := trace st @ [Latest_run (wf_id w), Download_logs (r_id r)]\<rparr>) \<and>
         monitor_loop e (w # rest) st =
           monitor_loop e rest
             (st\<lparr>failed := failed st + 1,
                 trace := trace st @ [Latest_run (wf_id w), Download_logs (r_id r)]\<rparr>)"
  using assms by (auto simp add: monitor_step_def)

theorem failed_no_logs_witness:
  "latest_run no_logs_env (wf_id ci_workflow) = Some failed_run \<and>
   conclusion failed_run = Some ''failure'' \<and>
   download_logs no_logs_env (r_id failed_run) = None \<and>
   monitor no_logs_env =
     Inr \<lparr>passed = 0, failed = 1, all_results = [],
          trace = [List_workflows, Latest_run 1, Download_logs 101], total_workflows = 1\<rparr>"
  using failed_no_logs [of no_logs_env ci_workflow failed_run
          "\<lparr>passed = 0, failed = 0, all_results = [], trace = [List_workflows]\<rparr>" "[]"]
  by (simp add: monitor_def no_logs_env_def failed_run_def ci_workflow_def)

lemma quiet_archive_no_errors: "extract_from quiet_archive = Inr []"
  by code_simp

lemma quiet_env_monitor:
  "monitor quiet_env =
     Inr \<lparr>passed = 0, failed = 1,
          all_results = [\<lparr>workflow_name = ''CI'', run_id = 101, errors = []\<rparr>],
          trace = [List_workflows, Latest_run 1, Download_logs 101, Extract_all_errors ''PK-logs''],
          total_workflows = 1\<rparr>"
  by (simp add: monitor_def quiet_env_def monitor_step_def extract_all_errors_def
                failed_run_def ci_workflow_def quiet_archive_no_errors)

text \<open>
  C10. A failed run whose archive opens, is read and holds no error line still gets an entry in
  \<open>all_results\<close>, with an empty list of errors. So a pass can report more entries than
  there are entries with an error.
\<close>

theorem empty_report_appended:
  assumes "latest_run e (wf_id w) = Some r"
    and "conclusion r = Some ''failure''"
    and "download_logs e (r_id r) = Some logs"
    and "logs \<noteq> []"
    and "ZipFile e logs = Some z"
    and "extract_from z = Inr []"
  shows "monitor_step e w st =
           Inr (st\<lparr>failed := failed st + 1,
                   all_results := all_results st @
                     [\<lparr>workflow_name = wf_name w, run_id = r_id r, errors = []\<rparr>],
                   trace := trace st @ [Latest_run (wf_id w), Download_logs (r_id r),
                                        Extract_all_errors logs]\<rparr>) \<and>
         (\<exists>e' s. monitor e' = Inr s \<and>
            length (filter (\<lambda>res. errors res \<noteq> []) (all_results s)) < length (all_results s))"
proof -
  have "monitor_step e w st =
           Inr (st\<lparr>failed := failed st + 1,
                   all_results := all_results st @
                     [\<lparr>workflow_name = wf_name w, run_id = r_id r, errors = []\<rparr>],
                   trace := trace st @ [Latest_run (wf_id w), Download_logs (r_id r),
                                        Extract_all_errors logs]\<rparr>)"
    using assms by (simp add: monitor_step_def extract_all_errors_def)
  moreover have "\<exists>e' s. monitor e' = Inr s \<and>
            length (filter (\<lambda>res. errors res \<noteq> []) (all_results s)) < length (all_results s)"
    using quiet_env_monitor by (intro exI [of _ quiet_env]) simp
  ultimately show ?thesis by blast
qed

theorem empty_report_appended_witness:
  "latest_run quiet_env (wf_id ci_workflow) = Some failed_run \<and>
   conclusion failed_run = Some ''failure'' \<and>
   download_logs quiet_env (r_id failed_run) = Some ''PK-logs'' \<and>
   ZipFile quiet_env ''PK-logs'' = Some quiet_archive \<and>
   extract_from quiet_archive = Inr [] \<and>
   monitor_step quiet_env ci_workflow
       \<lparr>passed = 0, failed = 0, all_results = [], trace = [List_workflows]\<rparr> =
     Inr \<lparr>passed = 0, failed = 1,
          all_results = [\<lparr>workflow_name = ''CI'', run_id = 101, errors = []\<rparr>],
          trace = [List_workflows, Latest_run 1, Download_logs 101, Extract_all_errors ''PK-logs'']\<rparr>"
  using empty_report_appended [of quiet_env ci_workflow failed_run "''PK-logs''" quiet_archive
          "\<lparr>passed = 0, failed = 0, all_results = [], trace = [List_workflows]\<rparr>"]
        quiet_archive_no_errors
  by (simp add: quiet_env_def failed_run_def ci_workflow_def)






end
